theory Spec2Isabelle
  imports Main
begin

section \<open>prep: static extraction of SQL query text (cmd/prep/prep.go)\<close>

text \<open>
  The program walks the syntax trees of one Go package, recognises calls of a fixed set of
  query-executing methods and resolves the query argument of each call to a string: the text
  of a literal, or the recorded value of a named constant. This theory embeds the constant
  table loop of \<open>main\<close>, the methods \<open>Visit\<close> and \<open>processQuery\<close> of
  \<open>queryFinder\<close>, and the traversal of \<open>go/ast\<close> that drives them.
\<close>

subsection \<open>Syntax trees\<close>

text \<open>
  The node kinds of \<open>go/ast\<close> that the visitor tells apart, each with the fields the
  program reads. \<open>BasicLit\<close> carries its \<open>Value\<close> (the literal's source text),
  \<open>Ident\<close> its \<open>Name\<close>, \<open>SelectorExpr\<close> its operand \<open>X\<close> and the name of its
  \<open>Sel\<close> identifier, \<open>CallExpr\<close> its \<open>Fun\<close> and \<open>Args\<close>. \<open>BinaryExpr\<close>
  (operands and operator) stands for an expression that is neither literal nor identifier;
  \<open>Other\<close> is any remaining node kind (file, declaration, statement, expression), with a
  tag and its children in traversal order.
\<close>

datatype node =
    BasicLit string
  | Ident string
  | SelectorExpr node string
  | CallExpr node "node list"
  | BinaryExpr node string node
  | Other string "node list"

text \<open>The children of a node, in the order in which \<open>ast.Walk\<close> visits them.\<close>

fun children :: "node \<Rightarrow> node list" where
  "children (BasicLit v) = []"
| "children (Ident name) = []"
| "children (SelectorExpr x sel) = [x, Ident sel]"
| "children (CallExpr fn args) = fn # args"
| "children (BinaryExpr x opr y) = [x, y]"
| "children (Other kind cs) = cs"

subsection \<open>The visitor's state and the ways a run can stop\<close>

text \<open>
  \<open>queryFinder\<close> is the struct of the source: the constant table (a Go map from name to
  value), the accumulated queries (a slice) and the set of names declared more than once.
\<close>

record queryFinder =
  packageInfo :: "string \<rightharpoonup> string"
  queries :: "string list"
  nonUniqueNames :: "string set"

text \<open>
  A run stops early in two ways: \<open>log.Fatalf\<close> (the formatted message is kept), and the
  run-time panic of an index expression out of range (the index and the length are kept).
\<close>

datatype error =
    Fatal string
  | IndexOutOfRange nat nat

text \<open>Reading a Go map of strings: a missing key yields the empty string.\<close>

definition lookup :: "(string \<rightharpoonup> string) \<Rightarrow> string \<Rightarrow> string" where
  "lookup m k = (case m k of None \<Rightarrow> [] | Some v \<Rightarrow> v)"

text \<open>The index expression \<open>fCall.Args[i]\<close>: it panics when \<open>i\<close> is out of range.\<close>

definition index :: "node list \<Rightarrow> nat \<Rightarrow> error + node" where
  "index args i = (if i < length args then Inr (args ! i) else Inl (IndexOutOfRange i (length args)))"

subsection \<open>The constant table loop of main\<close>

text \<open>
  \<open>TypesInfo.Defs\<close> maps each defining identifier to the object it defines. The loop
  looks at the identifier's name and at whether the object is a \<open>*types.Const\<close>; for a
  constant it reads \<open>Val().ExactString()\<close>, which is carried by \<open>Const\<close> here. Every other
  object (variable, function, type, or no object at all) is \<open>NotConst\<close>. The bindings are
  given as a list: the order in which the \<open>range\<close> loop meets them.
\<close>

datatype object =
    Const string
  | NotConst

definition newFinder :: queryFinder where
  "newFinder = \<lparr>packageInfo = Map.empty, queries = [], nonUniqueNames = {}\<rparr>"

fun recordDef :: "queryFinder \<Rightarrow> string \<times> object \<Rightarrow> queryFinder" where
  "recordDef f (name, Const val) =
     (if packageInfo f name \<noteq> None
      then f\<lparr>nonUniqueNames := insert name (nonUniqueNames f)\<rparr>
      else f\<lparr>packageInfo := (packageInfo f)(name \<mapsto> val)\<rparr>)"
| "recordDef f (name, NotConst) = f"

definition buildTable :: "queryFinder \<Rightarrow> (string \<times> object) list \<Rightarrow> queryFinder" where
  "buildTable f defs = foldl recordDef f defs"

text \<open>A character that stands for itself in both kinds of string literal and in a quoted string.\<close>

definition plain :: "char \<Rightarrow> bool" where
  "plain c \<longleftrightarrow>
     (0x20::nat) \<le> of_char c \<and> of_char c \<le> (0x7E::nat) \<and>
     c \<noteq> CHR 0x22 \<and> c \<noteq> CHR 0x5C \<and> c \<noteq> CHR 0x60"



subsection \<open>methodImplements, processQuery and Visit\<close>

definition methodTable :: "(string \<times> string) list" where
  "methodTable =
    [(''ExecContext'', ''ExecContext''),
     (''QueryContext'', ''QueryContext''),
     (''QueryRowContext'', ''QueryRowContext''),
     (''NamedExecContext'', ''NamedExecContext''),
     (''GetContext'', ''GetContext''),
     (''SelectContext'', ''SelectContext''),
     (''NamedQueryContext'', ''NamedQueryContext''),
     (''PrepareContext'', ''PrepareContext''),
     (''PrepareNamedContext'', ''PrepareNamedContext'')]"

definition methodImplements :: "string \<Rightarrow> string" where
  "methodImplements name = (case map_of methodTable name of None \<Rightarrow> [] | Some v \<Rightarrow> v)"

text \<open>The two case lists of the \<open>switch\<close> in \<open>Visit\<close>.\<close>

definition queryFirst :: "string list" where
  "queryFirst =
    [''ExecContext'', ''QueryContext'', ''QueryRowContext'', ''NamedExecContext'',
     ''NamedQueryContext'', ''PrepareContext'', ''PrepareNamedContext'']"

definition destFirst :: "string list" where
  "destFirst = [''GetContext'', ''SelectContext'']"

definition fatalMessage :: "string \<Rightarrow> string" where
  "fatalMessage name = ''constant already defined, need unique name for '' @ name"

fun processQuery :: "queryFinder \<Rightarrow> node \<Rightarrow> error + string" where
  "processQuery f (BasicLit v) = Inr v"
| "processQuery f (Ident name) =
     (if name \<in> nonUniqueNames f then Inl (Fatal (fatalMessage name))
      else Inr (lookup (packageInfo f) name))"
| "processQuery f q = Inr []"

text \<open>
  The \<open>switch\<close> of \<open>Visit\<close>: the argument is indexed first, then handed to
  \<open>processQuery\<close>; with no matching case \<open>query\<close> keeps its zero value.
\<close>

definition extractQuery :: "queryFinder \<Rightarrow> string \<Rightarrow> node list \<Rightarrow> error + string" where
  "extractQuery f name args =
     (if name \<in> set queryFirst then
        (case index args 1 of Inl e \<Rightarrow> Inl e | Inr a \<Rightarrow> processQuery f a)
      else if name \<in> set destFirst then
        (case index args 2 of Inl e \<Rightarrow> Inl e | Inr a \<Rightarrow> processQuery f a)
      else Inr [])"

text \<open>
  \<open>Visit\<close> returns the finder as it leaves it, and whether the visitor it returns is the
  finder (\<open>True\<close>: the traversal goes on into the children) or \<open>nil\<close> (\<open>False\<close>). The
  node \<open>None\<close> is the \<open>nil\<close> node that \<open>ast.Walk\<close> passes after the children.
\<close>

fun Visit :: "queryFinder \<Rightarrow> node option \<Rightarrow> error + queryFinder \<times> bool" where
  "Visit f (Some (CallExpr (SelectorExpr x sel) args)) =
     (if methodImplements sel = [] then Inr (f, True)
      else
        (case extractQuery f sel args of
           Inl e \<Rightarrow> Inl e
         | Inr query \<Rightarrow>
             Inr (if query \<noteq> [] then f\<lparr>queries := queries f @ [query]\<rparr> else f, False)))"
| "Visit f node = Inr (f, True)"

subsection \<open>The traversal\<close>

text \<open>A measure under which the children of a node weigh less than the node.\<close>

fun weight :: "node \<Rightarrow> nat" where
  "weight (BasicLit v) = 2"
| "weight (Ident name) = 2"
| "weight (SelectorExpr x sel) = weight x + 4"
| "weight (CallExpr fn args) = weight fn + sum_list (map weight args) + 2"
| "weight (BinaryExpr x opr y) = weight x + weight y + 2"
| "weight (Other kind cs) = sum_list (map weight cs) + 2"

lemma weight_pos: "0 < weight n"
  by (cases n) simp_all

lemma weight_children: "sum_list (map weight (children n)) + 1 < weight n"
  by (cases n) simp_all

text \<open>
  Modelled from the spec: \<open>ast.Walk\<close>, which \<open>main\<close> calls on every file, belongs to the
  Go standard library and is not among the sources. The spec describes a pre-order
  traversal in which the visitor's answer for a node decides whether the traversal goes
  into the node's children, siblings and outer nodes being visited as usual. As the
  library documents it: \<open>Walk\<close> calls \<open>Visit\<close> on the node; when the visitor returned is
  not \<open>nil\<close> it walks the children in order with that visitor and then calls \<open>Visit\<close>
  on \<open>nil\<close>. A fatal exit or a panic inside ends the traversal at once.
\<close>

function Walk :: "queryFinder \<Rightarrow> node \<Rightarrow> error + queryFinder"
  and walkList :: "queryFinder \<Rightarrow> node list \<Rightarrow> error + queryFinder" where
  "Walk f n =
     (case Visit f (Some n) of
        Inl e \<Rightarrow> Inl e
      | Inr (f', descend) \<Rightarrow>
          if \<not> descend then Inr f'
          else
            (case walkList f' (children n) of
               Inl e \<Rightarrow> Inl e
             | Inr f'' \<Rightarrow>
                 (case Visit f'' None of Inl e \<Rightarrow> Inl e | Inr (f''', d) \<Rightarrow> Inr f''')))"
| "walkList f [] = Inr f"
| "walkList f (n # ns) =
     (case Walk f n of Inl e \<Rightarrow> Inl e | Inr f' \<Rightarrow> walkList f' ns)"
  by pat_completeness auto
termination
proof (relation "measure
    (\<lambda>a. case a of Inl (f, n) \<Rightarrow> weight n | Inr (f, ns) \<Rightarrow> sum_list (map weight ns) + 1)",
    goal_cases)
  case 1
  show ?case by simp
next
  case (2 f n x2 x y)
  show ?case using weight_children [of n] by simp
next
  case (3 f n ns)
  show ?case by simp
next
  case (4 f n ns x2)
  show ?case using weight_pos [of n] by simp
qed

text \<open>
  The part of \<open>main\<close> between loading the package and writing the output: the table is
  built from empty, then every file is walked, in the order the \<open>range\<close> loop meets them.
\<close>

definition run :: "(string \<times> object) list \<Rightarrow> node list \<Rightarrow> error + string list" where
  "run defs files =
     (case walkList (buildTable newFinder defs) files of
        Inl e \<Rightarrow> Inl e
      | Inr f \<Rightarrow> Inr (queries f))"

subsection \<open>Notions used to state the properties\<close>

text \<open>
  A node is recognised when it passes the three tests at the head of \<open>Visit\<close>: it is a
  call expression, its callee is a selector expression, and the selector's name has a
  non-empty entry in \<open>methodImplements\<close>.
\<close>

fun recognized :: "node \<Rightarrow> bool" where
  "recognized (CallExpr (SelectorExpr x sel) args) = (methodImplements sel \<noteq> [])"
| "recognized n = False"

text \<open>
  \<open>queryArgument sel args a\<close>: the call supplies the argument that the \<open>switch\<close> of
  \<open>Visit\<close> reads for the method \<open>sel\<close>, and that argument is \<open>a\<close>.
\<close>

definition queryArgument :: "string \<Rightarrow> node list \<Rightarrow> node \<Rightarrow> bool" where
  "queryArgument sel args a \<longleftrightarrow>
     (sel \<in> set queryFirst \<and> 1 < length args \<and> args ! 1 = a) \<or>
     (sel \<in> set destFirst \<and> 2 < length args \<and> args ! 2 = a)"

text \<open>A binding of \<open>Defs\<close> that defines a constant of the given name.\<close>

fun declaresConst :: "string \<Rightarrow> string \<times> object \<Rightarrow> bool" where
  "declaresConst name (n, Const val) = (n = name)"
| "declaresConst name (n, NotConst) = False"

text \<open>Two finders with the same constant table and the same non-unique names.\<close>

definition sameTables :: "queryFinder \<Rightarrow> queryFinder \<Rightarrow> bool" where
  "sameTables f g \<longleftrightarrow> packageInfo f = packageInfo g \<and> nonUniqueNames f = nonUniqueNames g"

text \<open>The result of a traversal started with no queries, moved behind the queries of \<open>f\<close>.\<close>

definition shifted :: "queryFinder \<Rightarrow> error + queryFinder \<Rightarrow> error + queryFinder" where
  "shifted f r = (case r of Inl e \<Rightarrow> Inl e | Inr g \<Rightarrow> Inr (f\<lparr>queries := queries f @ queries g\<rparr>))"

lemma weight_child: "c \<in> set (children n) \<Longrightarrow> weight c < weight n"
proof -
  assume "c \<in> set (children n)"
  then have "weight c \<le> sum_list (map weight (children n))"
    by (simp add: member_le_sum_list)
  then show ?thesis
    using weight_children [of n] by simp
qed

text \<open>
  The nodes on which a traversal calls \<open>Visit\<close>, in order, when nothing stops it: the
  node itself, then, unless it is recognised, the nodes of its children. \<open>visitAll\<close>
  calls \<open>Visit\<close> on a list of nodes in turn.
\<close>

function visited :: "node \<Rightarrow> node list" where
  "visited n = n # (if recognized n then [] else concat (map visited (children n)))"
  by pat_completeness auto
termination
  by (relation "measure weight") (simp_all add: weight_child)

declare visited.simps [simp del]

fun visitAll :: "queryFinder \<Rightarrow> node list \<Rightarrow> error + queryFinder" where
  "visitAll f [] = Inr f"
| "visitAll f (m # ms) =
     (case Visit f (Some m) of Inl e \<Rightarrow> Inl e | Inr (f', d) \<Rightarrow> visitAll f' ms)"

declare Walk.simps [simp del]

section \<open>Auxiliary facts\<close>

lemma recognized_iff:
  "methodImplements sel \<noteq> [] \<longleftrightarrow> sel \<in> set queryFirst \<or> sel \<in> set destFirst"
  by (simp add: methodImplements_def methodTable_def queryFirst_def destFirst_def)

lemma queryFirst_not_destFirst: "sel \<in> set queryFirst \<Longrightarrow> sel \<notin> set destFirst"
  by (auto simp: queryFirst_def destFirst_def)

lemma queryArgument_recognized: "queryArgument sel args a \<Longrightarrow> methodImplements sel \<noteq> []"
  by (auto simp: queryArgument_def recognized_iff)

lemma extractQuery_queryArgument:
  "queryArgument sel args a \<Longrightarrow> extractQuery f sel args = processQuery f a"
  by (auto simp: queryArgument_def extractQuery_def index_def queryFirst_not_destFirst)

lemma Visit_queryArgument:
  assumes "queryArgument sel args a"
  shows "Visit f (Some (CallExpr (SelectorExpr x sel) args)) =
    (case processQuery f a of
       Inl e \<Rightarrow> Inl e
     | Inr q \<Rightarrow> Inr (if q \<noteq> [] then f\<lparr>queries := queries f @ [q]\<rparr> else f, False))"
  using queryArgument_recognized [OF assms] extractQuery_queryArgument [OF assms]
  by simp

lemma processQuery_shift: "processQuery (f\<lparr>queries := qs\<rparr>) a = processQuery f a"
  by (cases a) simp_all

lemma extractQuery_shift: "extractQuery (f\<lparr>queries := qs\<rparr>) sel args = extractQuery f sel args"
  by (simp add: extractQuery_def processQuery_shift cong: sum.case_cong)

lemma Visit_frame:
  assumes "Visit f n = Inr (f', d)"
  shows "packageInfo f' = packageInfo f \<and> nonUniqueNames f' = nonUniqueNames f \<and>
    (queries f' = queries f \<or> (\<exists>q. q \<noteq> [] \<and> queries f' = queries f @ [q]))"
  using assms
  by (cases "(f, n)" rule: Visit.cases) (auto split: if_splits sum.splits)

lemma Visit_shift:
  "Visit f n =
    (case Visit (f\<lparr>queries := []\<rparr>) n of
       Inl e \<Rightarrow> Inl e
     | Inr (g, d) \<Rightarrow> Inr (f\<lparr>queries := queries f @ queries g\<rparr>, d))"
  by (cases "(f, n)" rule: Visit.cases) (auto simp: extractQuery_shift split: sum.splits)

lemma Visit_not_recognized: "\<not> recognized n \<Longrightarrow> Visit f (Some n) = Inr (f, True)"
  by (cases "(f, Some n)" rule: Visit.cases) auto

lemma Visit_recognized:
  "recognized n \<Longrightarrow> Visit f (Some n) = Inr (f', d) \<Longrightarrow> \<not> d"
  by (cases "(f, Some n)" rule: Visit.cases) (auto split: sum.splits)

lemma Walk_not_recognized: "\<not> recognized n \<Longrightarrow> Walk f n = walkList f (children n)"
  by (simp add: Walk.simps Visit_not_recognized split: sum.splits)

lemma Walk_recognized:
  "recognized n \<Longrightarrow>
   Walk f n = (case Visit f (Some n) of Inl e \<Rightarrow> Inl e | Inr (f', d) \<Rightarrow> Inr f')"
  by (auto simp: Walk.simps split: sum.splits dest: Visit_recognized)

lemma children_induct [case_names node]:
  assumes "\<And>n. (\<And>c. c \<in> set (children n) \<Longrightarrow> P c) \<Longrightarrow> P n"
  shows "P n"
proof (induction "weight n" arbitrary: n rule: less_induct)
  case less
  show ?case
    by (rule assms, rule less.hyps, rule weight_child)
qed

lemma Visit_sameTables: "Visit f n = Inr (f', d) \<Longrightarrow> sameTables f' f"
  by (simp add: sameTables_def Visit_frame)

lemma walkList_sameTables_if:
  assumes "\<And>n f f'. n \<in> set ns \<Longrightarrow> Walk f n = Inr f' \<Longrightarrow> sameTables f' f"
    and "walkList f ns = Inr f'"
  shows "sameTables f' f"
  using assms
proof (induction ns arbitrary: f)
  case Nil
  then show ?case by (simp add: sameTables_def)
next
  case (Cons n ns)
  from Cons.prems(2) obtain g where g: "Walk f n = Inr g" and rest: "walkList g ns = Inr f'"
    by (auto split: sum.splits)
  have "sameTables g f"
    by (rule Cons.prems(1) [OF _ g]) simp
  moreover have "sameTables f' g"
    by (rule Cons.IH [OF _ rest], rule Cons.prems(1)) simp_all
  ultimately show ?case
    by (simp add: sameTables_def)
qed

lemma Walk_sameTables: "Walk f n = Inr f' \<Longrightarrow> sameTables f' f"
proof (induction n arbitrary: f f' rule: children_induct)
  case (node n)
  show ?case
  proof (cases "recognized n")
    case True
    then show ?thesis
      using node.prems by (auto simp: Walk_recognized split: sum.splits dest: Visit_sameTables)
  next
    case False
    then have "walkList f (children n) = Inr f'"
      using node.prems by (simp add: Walk_not_recognized)
    then show ?thesis
      using node.IH by (rule walkList_sameTables_if [rotated])
  qed
qed

lemma walkList_sameTables: "walkList f ns = Inr f' \<Longrightarrow> sameTables f' f"
  using Walk_sameTables by (rule walkList_sameTables_if)

lemma sameTables_reset: "sameTables g f \<Longrightarrow> g\<lparr>queries := []\<rparr> = f\<lparr>queries := []\<rparr>"
  by (simp add: sameTables_def)

lemma shifted_Inl: "shifted f (Inl e) = Inl e"
  by (simp add: shifted_def)

lemma shifted_Inr: "shifted f (Inr g) = Inr (f\<lparr>queries := queries f @ queries g\<rparr>)"
  by (simp add: shifted_def)

lemma shifted_shifted:
  "shifted (f\<lparr>queries := queries f @ queries g\<rparr>) r = shifted f (shifted g r)"
  by (cases r) (simp_all add: shifted_def)

lemma walkList_shift_if:
  assumes "\<And>n f. n \<in> set ns \<Longrightarrow> Walk f n = shifted f (Walk (f\<lparr>queries := []\<rparr>) n)"
  shows "walkList f ns = shifted f (walkList (f\<lparr>queries := []\<rparr>) ns)"
  using assms
proof (induction ns arbitrary: f)
  case Nil
  show ?case by (simp add: shifted_def)
next
  case (Cons n ns)
  have n: "Walk f n = shifted f (Walk (f\<lparr>queries := []\<rparr>) n)"
    by (rule Cons.prems) simp
  have ns: "walkList h ns = shifted h (walkList (h\<lparr>queries := []\<rparr>) ns)" for h
    by (rule Cons.IH, rule Cons.prems) simp
  show ?case
  proof (cases "Walk (f\<lparr>queries := []\<rparr>) n")
    case (Inl e)
    have "Walk f n = Inl e"
      by (simp only: n Inl shifted_Inl)
    then show ?thesis
      by (simp add: Inl shifted_Inl)
  next
    case (Inr g)
    let ?f' = "f\<lparr>queries := queries f @ queries g\<rparr>"
    have "Walk f n = Inr ?f'"
      by (simp only: n Inr shifted_Inr)
    then have "walkList f (n # ns) = walkList ?f' ns"
      by simp
    also have "\<dots> = shifted ?f' (walkList (?f'\<lparr>queries := []\<rparr>) ns)"
      by (rule ns)
    also have "?f'\<lparr>queries := []\<rparr> = f\<lparr>queries := []\<rparr>"
      by simp
    finally have lhs: "walkList f (n # ns) = shifted ?f' (walkList (f\<lparr>queries := []\<rparr>) ns)" .
    have "walkList (f\<lparr>queries := []\<rparr>) (n # ns) = walkList g ns"
      by (simp add: Inr)
    also have "\<dots> = shifted g (walkList (g\<lparr>queries := []\<rparr>) ns)"
      by (rule ns)
    finally have rhs: "walkList (f\<lparr>queries := []\<rparr>) (n # ns) =
      shifted g (walkList (g\<lparr>queries := []\<rparr>) ns)" .
    have "g\<lparr>queries := []\<rparr> = f\<lparr>queries := []\<rparr>"
      using Walk_sameTables [OF Inr] sameTables_reset [of g "f\<lparr>queries := []\<rparr>"] by simp
    then have "walkList (f\<lparr>queries := []\<rparr>) (n # ns) =
      shifted g (walkList (f\<lparr>queries := []\<rparr>) ns)"
      using rhs by (simp only:)
    then show ?thesis
      by (simp only: lhs shifted_shifted)
  qed
qed

lemma Walk_shift: "Walk f n = shifted f (Walk (f\<lparr>queries := []\<rparr>) n)"
proof (induction n arbitrary: f rule: children_induct)
  case (node n)
  show ?case
  proof (cases "recognized n")
    case True
    show ?thesis
      unfolding Walk_recognized [OF True]
      by (subst Visit_shift) (simp add: shifted_def split: sum.splits)
  next
    case False
    show ?thesis
      unfolding Walk_not_recognized [OF False]
      using node.IH by (rule walkList_shift_if)
  qed
qed

lemma walkList_shift: "walkList f ns = shifted f (walkList (f\<lparr>queries := []\<rparr>) ns)"
  using Walk_shift by (rule walkList_shift_if)

lemma buildTable_Nil: "buildTable f [] = f"
  by (simp add: buildTable_def)

lemma buildTable_Cons: "buildTable f (d # ds) = buildTable (recordDef f d) ds"
  by (simp add: buildTable_def)

lemma buildTable_append: "buildTable f (xs @ ys) = buildTable (buildTable f xs) ys"
  by (simp add: buildTable_def)

lemma recordDef_keeps_entry:
  "packageInfo f name = Some v \<Longrightarrow> packageInfo (recordDef f d) name = Some v"
  by (cases "(f, d)" rule: recordDef.cases) auto

lemma recordDef_keeps_nonUnique:
  "name \<in> nonUniqueNames f \<Longrightarrow> name \<in> nonUniqueNames (recordDef f d)"
  by (cases "(f, d)" rule: recordDef.cases) auto

lemma recordDef_other:
  "\<not> declaresConst name d \<Longrightarrow>
   packageInfo (recordDef f d) name = packageInfo f name \<and>
   (name \<in> nonUniqueNames (recordDef f d) \<longleftrightarrow> name \<in> nonUniqueNames f)"
  by (cases "(f, d)" rule: recordDef.cases) auto

lemma recordDef_again:
  "declaresConst name d \<Longrightarrow> packageInfo f name \<noteq> None \<Longrightarrow>
   name \<in> nonUniqueNames (recordDef f d)"
  by (cases "(f, d)" rule: recordDef.cases) auto

lemma buildTable_keeps_entry:
  "packageInfo f name = Some v \<Longrightarrow> packageInfo (buildTable f defs) name = Some v"
  by (induction defs arbitrary: f) (simp_all add: buildTable_Nil buildTable_Cons recordDef_keeps_entry)

lemma buildTable_keeps_nonUnique:
  "name \<in> nonUniqueNames f \<Longrightarrow> name \<in> nonUniqueNames (buildTable f defs)"
  by (induction defs arbitrary: f)
    (simp_all add: buildTable_Nil buildTable_Cons recordDef_keeps_nonUnique)

lemma buildTable_other:
  "\<forall>d \<in> set defs. \<not> declaresConst name d \<Longrightarrow>
   packageInfo (buildTable f defs) name = packageInfo f name \<and>
   (name \<in> nonUniqueNames (buildTable f defs) \<longleftrightarrow> name \<in> nonUniqueNames f)"
  by (induction defs arbitrary: f) (simp_all add: buildTable_Nil buildTable_Cons recordDef_other)

lemma buildTable_again:
  "\<exists>d \<in> set defs. declaresConst name d \<Longrightarrow> packageInfo f name \<noteq> None \<Longrightarrow>
   name \<in> nonUniqueNames (buildTable f defs)"
proof (induction defs arbitrary: f)
  case Nil
  then show ?case by simp
next
  case (Cons d ds)
  obtain v where v: "packageInfo f name = Some v"
    using Cons.prems(2) by auto
  show ?case
  proof (cases "declaresConst name d")
    case True
    then have "name \<in> nonUniqueNames (recordDef f d)"
      using Cons.prems(2) by (rule recordDef_again)
    then show ?thesis
      by (simp add: buildTable_Cons buildTable_keeps_nonUnique)
  next
    case False
    then have "\<exists>d \<in> set ds. declaresConst name d"
      using Cons.prems(1) by auto
    moreover have "packageInfo (recordDef f d) name \<noteq> None"
      using recordDef_keeps_entry [OF v] by simp
    ultimately show ?thesis
      using Cons.IH by (simp add: buildTable_Cons)
  qed
qed

lemma visitAll_append:
  "visitAll f (xs @ ys) = (case visitAll f xs of Inl e \<Rightarrow> Inl e | Inr g \<Rightarrow> visitAll g ys)"
  by (induction xs arbitrary: f) (auto split: sum.splits)

lemma walkList_visitAll_if:
  assumes "\<And>n f. n \<in> set ns \<Longrightarrow> Walk f n = visitAll f (visited n)"
  shows "walkList f ns = visitAll f (concat (map visited ns))"
  using assms
proof (induction ns arbitrary: f)
  case Nil
  show ?case by simp
next
  case (Cons n ns)
  have n: "Walk f n = visitAll f (visited n)" for f
    by (rule Cons.prems) simp
  have ns: "walkList f ns = visitAll f (concat (map visited ns))" for f
    by (rule Cons.IH, rule Cons.prems) simp
  show ?case
    by (simp add: n ns visitAll_append cong: sum.case_cong)
qed

lemma Walk_visitAll: "Walk f n = visitAll f (visited n)"
proof (induction n arbitrary: f rule: children_induct)
  case (node n)
  show ?case
  proof (cases "recognized n")
    case True
    then show ?thesis
      by (simp add: Walk_recognized visited.simps [of n] split: sum.splits)
  next
    case False
    have "walkList f (children n) = visitAll f (concat (map visited (children n)))"
      using node.IH by (rule walkList_visitAll_if)
    then show ?thesis
      using False by (simp add: Walk_not_recognized visited.simps [of n] Visit_not_recognized)
  qed
qed

lemma walkList_visitAll: "walkList f ns = visitAll f (concat (map visited ns))"
  using Walk_visitAll by (rule walkList_visitAll_if)

lemma visitAll_sameTables: "visitAll f ms = Inr g \<Longrightarrow> sameTables g f"
proof (induction ms arbitrary: f)
  case Nil
  then show ?case by (simp add: sameTables_def)
next
  case (Cons m ms)
  from Cons.prems obtain f' d where v: "Visit f (Some m) = Inr (f', d)" and r: "visitAll f' ms = Inr g"
    by (auto split: sum.splits)
  show ?case
    using Visit_sameTables [OF v] Cons.IH [OF r] by (simp add: sameTables_def)
qed

lemma visitAll_abort:
  assumes "m \<in> set ms"
    and "\<And>g. sameTables g f \<Longrightarrow> \<exists>e. Visit g (Some m) = Inl e"
  shows "\<exists>e. visitAll f ms = Inl e"
proof -
  from assms(1) obtain xs ys where ms: "ms = xs @ m # ys"
    by (auto simp: in_set_conv_decomp)
  show ?thesis
  proof (cases "visitAll f xs")
    case (Inl e)
    then show ?thesis by (simp add: ms visitAll_append)
  next
    case (Inr g)
    then obtain e where "Visit g (Some m) = Inl e"
      using assms(2) visitAll_sameTables by blast
    then show ?thesis
      using Inr by (simp add: ms visitAll_append)
  qed
qed

lemma recognized_names:
  "methodImplements sel \<noteq> [] \<longleftrightarrow>
   sel \<in> {''ExecContext'', ''QueryContext'', ''QueryRowContext'', ''NamedExecContext'',
     ''NamedQueryContext'', ''PrepareContext'', ''PrepareNamedContext'',
     ''GetContext'', ''SelectContext''}"
  by (auto simp: recognized_iff queryFirst_def destFirst_def)

lemma walkList_abort:
  assumes "m \<in> set (concat (map visited files))"
    and "\<And>g. sameTables g f \<Longrightarrow> \<exists>e. Visit g (Some m) = Inl e"
  shows "\<exists>e. walkList f files = Inl e"
  unfolding walkList_visitAll using assms by (rule visitAll_abort)

lemma processQuery_fatal_only:
  "processQuery f q = Inl e \<longleftrightarrow>
   (\<exists>name. q = Ident name \<and> name \<in> nonUniqueNames f \<and> e = Fatal (fatalMessage name))"
  by (cases q) auto

lemma recognized_shape:
  "recognized n \<longleftrightarrow>
   (\<exists>x sel args. n = CallExpr (SelectorExpr x sel) args \<and> methodImplements sel \<noteq> [])"
  by (cases n rule: recognized.cases) simp_all





section \<open>The properties\<close>

text \<open>
  C1. When the query argument of a recognised call is a bare identifier that is in the
  non-unique name set, resolution is fatal: \<open>processQuery\<close> does not return, \<open>Visit\<close>
  and the traversal of the call end in \<open>log.Fatalf\<close> with the message that names the
  identifier, so no value reaches a caller or the query list. Every traversal of files
  that meets the call is aborted, and it is aborted with that message when nothing before
  the call stopped it.
\<close>

theorem ambiguous_name_is_fatal:
  assumes "queryArgument sel args (Ident name)"
    and "name \<in> nonUniqueNames f"
  shows "processQuery f (Ident name) =
      Inl (Fatal (''constant already defined, need unique name for '' @ name)) \<and>
    Visit f (Some (CallExpr (SelectorExpr x sel) args)) =
      Inl (Fatal (''constant already defined, need unique name for '' @ name)) \<and>
    Walk f (CallExpr (SelectorExpr x sel) args) =
      Inl (Fatal (''constant already defined, need unique name for '' @ name)) \<and>
    (\<forall>files. CallExpr (SelectorExpr x sel) args \<in> set (concat (map visited files)) \<longrightarrow>
       (\<exists>e. walkList f files = Inl e)) \<and>
    (\<forall>files pre post g.
       concat (map visited files) = pre @ CallExpr (SelectorExpr x sel) args # post \<longrightarrow>
       visitAll f pre = Inr g \<longrightarrow>
       walkList f files =
         Inl (Fatal (''constant already defined, need unique name for '' @ name)))"
proof -
  let ?call = "CallExpr (SelectorExpr x sel) args"
  let ?err = "Fatal (''constant already defined, need unique name for '' @ name)"
  have pq: "processQuery g (Ident name) = Inl ?err" if "sameTables g f" for g
    using that assms(2) by (simp add: sameTables_def fatalMessage_def)
  have visit: "Visit g (Some ?call) = Inl ?err" if "sameTables g f" for g
    by (simp only: Visit_queryArgument [OF assms(1)] pq [OF that] sum.case)
  have same: "sameTables f f"
    by (simp add: sameTables_def)
  have walk: "Walk f ?call = Inl ?err"
    using visit [OF same] by (simp add: Walk.simps)
  have abort: "\<exists>e. walkList f files = Inl e"
    if "?call \<in> set (concat (map visited files))" for files
  proof (rule walkList_abort [OF that])
    fix g
    assume "sameTables g f"
    then show "\<exists>e. Visit g (Some ?call) = Inl e"
      using visit by blast
  qed
  have first: "walkList f files = Inl ?err"
    if "concat (map visited files) = pre @ ?call # post" and "visitAll f pre = Inr g"
    for files pre post g
    using that visit [OF visitAll_sameTables [OF that(2)]]
    by (simp add: walkList_visitAll visitAll_append)
  show ?thesis
    using pq [OF same] visit [OF same] walk abort first by blast
qed

theorem ambiguous_name_is_fatal_witness:
  \<open>queryArgument ''ExecContext'' [Ident ''ctx'', Ident ''Q''] (Ident ''Q'') \<and>
   ''Q'' \<in> nonUniqueNames
     (buildTable newFinder [(''Q'', Const ''"SELECT 1"''), (''Q'', Const ''"SELECT 2"'')]) \<and>
   Visit (buildTable newFinder [(''Q'', Const ''"SELECT 1"''), (''Q'', Const ''"SELECT 2"'')])
     (Some (CallExpr (SelectorExpr (Ident ''db'') ''ExecContext'') [Ident ''ctx'', Ident ''Q''])) =
     Inl (Fatal ''constant already defined, need unique name for Q'') \<and>
   run [(''Q'', Const ''"SELECT 1"''), (''Q'', Const ''"SELECT 2"'')]
     [Other ''File''
       [CallExpr (SelectorExpr (Ident ''db'') ''ExecContext'') [Ident ''ctx'', Ident ''Q'']]] =
     Inl (Fatal ''constant already defined, need unique name for Q'')\<close>
proof -
  let ?defs = \<open>[(''Q'', Const ''"SELECT 1"''), (''Q'', Const ''"SELECT 2"'')]\<close>
  let ?f = "buildTable newFinder ?defs"
  let ?call = "CallExpr (SelectorExpr (Ident ''db'') ''ExecContext'') [Ident ''ctx'', Ident ''Q'']"
  let ?file = "Other ''File'' [?call]"
  have arg: "queryArgument ''ExecContext'' [Ident ''ctx'', Ident ''Q''] (Ident ''Q'')"
    by (simp add: queryArgument_def queryFirst_def)
  have amb: "''Q'' \<in> nonUniqueNames ?f"
    by (simp add: buildTable_def newFinder_def)
  note fatal = ambiguous_name_is_fatal [OF arg amb, of "Ident ''db''"]
  have msg: "''constant already defined, need unique name for '' @ ''Q'' =
    ''constant already defined, need unique name for Q''"
    by simp
  have visit: "Visit ?f (Some ?call) =
    Inl (Fatal (''constant already defined, need unique name for '' @ ''Q''))"
    using fatal by (elim conjE)
  have reach: "concat (map visited [?file]) = [?file] @ ?call # [] \<longrightarrow>
    visitAll ?f [?file] = Inr ?f \<longrightarrow>
    walkList ?f [?file] =
      Inl (Fatal (''constant already defined, need unique name for '' @ ''Q''))"
    using fatal by (elim conjE allE)
  have order: "concat (map visited [?file]) = [?file] @ ?call # []"
    by (simp add: visited.simps methodImplements_def methodTable_def)
  have before: "visitAll ?f [?file] = Inr ?f"
    by simp
  have "walkList ?f [?file] =
    Inl (Fatal (''constant already defined, need unique name for '' @ ''Q''))"
    using reach order before by (elim impE)
  then have "run ?defs [?file] =
    Inl (Fatal (''constant already defined, need unique name for '' @ ''Q''))"
    by (simp only: run_def sum.case)
  then show ?thesis
    using arg amb visit by (simp only: msg simp_thms)
qed

text \<open>
  C2. The recognised method names are the nine of the table. For the seven methods
  \<open>ExecContext\<close>, \<open>QueryContext\<close>, \<open>QueryRowContext\<close>, \<open>NamedExecContext\<close>,
  \<open>NamedQueryContext\<close>, \<open>PrepareContext\<close> and \<open>PrepareNamedContext\<close> the call is
  resolved from the argument at index 1 alone; for \<open>GetContext\<close> and \<open>SelectContext\<close>
  from the argument at index 2 alone, and putting any other expression at index 1 (the
  destination) changes nothing of what \<open>Visit\<close> returns.
\<close>

theorem query_argument_position:
  "(methodImplements sel \<noteq> [] \<longleftrightarrow>
      sel \<in> {''ExecContext'', ''QueryContext'', ''QueryRowContext'', ''NamedExecContext'',
        ''NamedQueryContext'', ''PrepareContext'', ''PrepareNamedContext''} \<or>
      sel \<in> {''GetContext'', ''SelectContext''}) \<and>
   (sel \<in> {''ExecContext'', ''QueryContext'', ''QueryRowContext'', ''NamedExecContext'',
        ''NamedQueryContext'', ''PrepareContext'', ''PrepareNamedContext''} \<longrightarrow>
    1 < length args \<longrightarrow>
      extractQuery f sel args = processQuery f (args ! 1) \<and>
      Visit f (Some (CallExpr (SelectorExpr x sel) args)) =
        (case processQuery f (args ! 1) of
           Inl e \<Rightarrow> Inl e
         | Inr q \<Rightarrow> Inr (if q \<noteq> [] then f\<lparr>queries := queries f @ [q]\<rparr> else f, False))) \<and>
   (sel \<in> {''GetContext'', ''SelectContext''} \<longrightarrow> 2 < length args \<longrightarrow>
      extractQuery f sel args = processQuery f (args ! 2) \<and>
      Visit f (Some (CallExpr (SelectorExpr x sel) args)) =
        (case processQuery f (args ! 2) of
           Inl e \<Rightarrow> Inl e
         | Inr q \<Rightarrow> Inr (if q \<noteq> [] then f\<lparr>queries := queries f @ [q]\<rparr> else f, False)) \<and>
      (\<forall>d. Visit f (Some (CallExpr (SelectorExpr x sel) (args[1 := d]))) =
         Visit f (Some (CallExpr (SelectorExpr x sel) args))))"
proof -
  have names: "methodImplements sel \<noteq> [] \<longleftrightarrow>
      sel \<in> {''ExecContext'', ''QueryContext'', ''QueryRowContext'', ''NamedExecContext'',
        ''NamedQueryContext'', ''PrepareContext'', ''PrepareNamedContext''} \<or>
      sel \<in> {''GetContext'', ''SelectContext''}"
    by (auto simp: recognized_names)
  have one: "extractQuery f sel args = processQuery f (args ! 1) \<and>
      Visit f (Some (CallExpr (SelectorExpr x sel) args)) =
        (case processQuery f (args ! 1) of
           Inl e \<Rightarrow> Inl e
         | Inr q \<Rightarrow> Inr (if q \<noteq> [] then f\<lparr>queries := queries f @ [q]\<rparr> else f, False))"
    if "sel \<in> {''ExecContext'', ''QueryContext'', ''QueryRowContext'', ''NamedExecContext'',
        ''NamedQueryContext'', ''PrepareContext'', ''PrepareNamedContext''}"
      and "1 < length args"
  proof -
    have "sel \<in> set queryFirst"
      using that(1) by (simp add: queryFirst_def)
    then have "queryArgument sel args (args ! 1)"
      using that(2) by (simp add: queryArgument_def)
    then show ?thesis
      by (simp only: extractQuery_queryArgument Visit_queryArgument simp_thms)
  qed
  have two: "extractQuery f sel args = processQuery f (args ! 2) \<and>
      Visit f (Some (CallExpr (SelectorExpr x sel) args)) =
        (case processQuery f (args ! 2) of
           Inl e \<Rightarrow> Inl e
         | Inr q \<Rightarrow> Inr (if q \<noteq> [] then f\<lparr>queries := queries f @ [q]\<rparr> else f, False)) \<and>
      (\<forall>d. Visit f (Some (CallExpr (SelectorExpr x sel) (args[1 := d]))) =
         Visit f (Some (CallExpr (SelectorExpr x sel) args)))"
    if "sel \<in> {''GetContext'', ''SelectContext''}" and "2 < length args"
  proof -
    have sel: "sel \<in> set destFirst"
      using that(1) by (simp add: destFirst_def)
    then have arg: "queryArgument sel args (args ! 2)"
      using that(2) by (simp add: queryArgument_def)
    have "queryArgument sel (args[1 := d]) (args ! 2)" for d
      using sel that(2) by (simp add: queryArgument_def)
    then have "Visit f (Some (CallExpr (SelectorExpr x sel) (args[1 := d]))) =
         Visit f (Some (CallExpr (SelectorExpr x sel) args))" for d
      by (simp only: Visit_queryArgument [OF arg] Visit_queryArgument)
    then show ?thesis
      using arg by (simp only: extractQuery_queryArgument Visit_queryArgument simp_thms)
  qed
  show ?thesis
    using names one two by blast
qed


theorem query_argument_position_witness:
  \<open>''GetContext'' \<in> {''GetContext'', ''SelectContext''} \<and>
   2 < length [Ident ''ctx'', Ident ''Q'', BasicLit ''"SELECT 1"''] \<and>
   ''Q'' \<in> nonUniqueNames
     (buildTable newFinder [(''Q'', Const ''"SELECT 1"''), (''Q'', Const ''"SELECT 2"'')]) \<and>
   map_sum id (\<lambda>r. (queries (fst r), snd r))
     (Visit (buildTable newFinder [(''Q'', Const ''"SELECT 1"''), (''Q'', Const ''"SELECT 2"'')])
       (Some (CallExpr (SelectorExpr (Ident ''db'') ''GetContext'')
         [Ident ''ctx'', Ident ''Q'', BasicLit ''"SELECT 1"'']))) =
     Inr ([''"SELECT 1"''], False)\<close>
proof -
  let ?f = \<open>buildTable newFinder [(''Q'', Const ''"SELECT 1"''), (''Q'', Const ''"SELECT 2"'')]\<close>
  let ?args = \<open>[Ident ''ctx'', Ident ''Q'', BasicLit ''"SELECT 1"'']\<close>
  have sel: "''GetContext'' \<in> {''GetContext'', ''SelectContext''}"
    by simp
  have len: "2 < length ?args"
    by simp
  have amb: "''Q'' \<in> nonUniqueNames ?f"
    by (simp add: buildTable_def newFinder_def)
  have "Visit ?f (Some (CallExpr (SelectorExpr (Ident ''db'') ''GetContext'') ?args)) =
    (case processQuery ?f (?args ! 2) of
       Inl e \<Rightarrow> Inl e
     | Inr q \<Rightarrow> Inr (if q \<noteq> [] then ?f\<lparr>queries := queries ?f @ [q]\<rparr> else ?f, False))"
    by (rule query_argument_position [of "''GetContext''" ?args ?f "Ident ''db''",
          THEN conjunct2, THEN conjunct2, THEN mp, THEN mp, OF sel len,
          THEN conjunct2, THEN conjunct1])
  then show ?thesis
    using sel len amb by (simp add: buildTable_def newFinder_def)
qed

text \<open>
  C3. Take any sequence of bindings and a name whose first constant definition in it has
  the value \<open>v\<close>. After the loop the table maps the name to \<open>v\<close>, whatever follows: a
  later constant definition of the name does not update the entry. The name is in the
  non-unique set exactly when a further constant definition of it follows; a name defined
  once is never put there.
\<close>

theorem constant_table_first_definition_wins:
  assumes "\<forall>d \<in> set pre. \<not> declaresConst name d"
  shows "packageInfo (buildTable newFinder (pre @ (name, Const v) # post)) name = Some v \<and>
    (name \<in> nonUniqueNames (buildTable newFinder (pre @ (name, Const v) # post)) \<longleftrightarrow>
       (\<exists>d \<in> set post. declaresConst name d))"
proof -
  let ?f = "buildTable newFinder pre"
  let ?g = "recordDef ?f (name, Const v)"
  have pre: "packageInfo ?f name = None" "name \<notin> nonUniqueNames ?f"
    using buildTable_other [OF assms, of newFinder] by (simp_all add: newFinder_def)
  then have g: "packageInfo ?g name = Some v" "name \<notin> nonUniqueNames ?g"
    by simp_all
  have split: "buildTable newFinder (pre @ (name, Const v) # post) = buildTable ?g post"
    by (simp add: buildTable_append buildTable_Cons)
  have "packageInfo (buildTable ?g post) name = Some v"
    using g(1) by (rule buildTable_keeps_entry)
  moreover have "name \<in> nonUniqueNames (buildTable ?g post) \<longleftrightarrow> (\<exists>d \<in> set post. declaresConst name d)"
  proof (cases "\<exists>d \<in> set post. declaresConst name d")
    case True
    then show ?thesis
      using buildTable_again [of post name ?g] g(1) by simp
  next
    case False
    then show ?thesis
      using buildTable_other [of post name ?g] g(2) by simp
  qed
  ultimately show ?thesis
    by (simp only: split) 
qed

theorem constant_table_first_definition_wins_witness:
  \<open>packageInfo
     (buildTable newFinder
       [(''n'', NotConst), (''Q'', Const ''"SELECT 1"''), (''R'', Const ''"SELECT 2"''),
        (''R'', NotConst), (''R'', Const ''"SELECT 3"''), (''R'', Const ''"SELECT 4"'')])
     ''Q'' = Some ''"SELECT 1"'' \<and>
   ''Q'' \<notin> nonUniqueNames
     (buildTable newFinder
       [(''n'', NotConst), (''Q'', Const ''"SELECT 1"''), (''R'', Const ''"SELECT 2"''),
        (''R'', NotConst), (''R'', Const ''"SELECT 3"''), (''R'', Const ''"SELECT 4"'')]) \<and>
   packageInfo
     (buildTable newFinder
       [(''n'', NotConst), (''Q'', Const ''"SELECT 1"''), (''R'', Const ''"SELECT 2"''),
        (''R'', NotConst), (''R'', Const ''"SELECT 3"''), (''R'', Const ''"SELECT 4"'')])
     ''R'' = Some ''"SELECT 2"'' \<and>
   ''R'' \<in> nonUniqueNames
     (buildTable newFinder
       [(''n'', NotConst), (''Q'', Const ''"SELECT 1"''), (''R'', Const ''"SELECT 2"''),
        (''R'', NotConst), (''R'', Const ''"SELECT 3"''), (''R'', Const ''"SELECT 4"'')])\<close>
proof -
  let ?q = \<open>(''Q'', Const ''"SELECT 1"'')\<close>
  let ?r = \<open>(''R'', Const ''"SELECT 2"'')\<close>
  let ?rest = \<open>[(''R'', NotConst), (''R'', Const ''"SELECT 3"''), (''R'', Const ''"SELECT 4"'')]\<close>
  have q_pre: "\<forall>d \<in> set [(''n'', NotConst)]. \<not> declaresConst ''Q'' d"
    by simp
  have r_pre: "\<forall>d \<in> set [(''n'', NotConst), ?q]. \<not> declaresConst ''R'' d"
    by simp
  have q_post: "\<not> (\<exists>d \<in> set (?r # ?rest). declaresConst ''Q'' d)"
    by simp
  have r_post: "\<exists>d \<in> set ?rest. declaresConst ''R'' d"
    by simp
  note q = constant_table_first_definition_wins [OF q_pre, of \<open>''"SELECT 1"''\<close> "?r # ?rest"]
  note r = constant_table_first_definition_wins [OF r_pre, of \<open>''"SELECT 2"''\<close> ?rest]
  have "packageInfo (buildTable newFinder ([(''n'', NotConst)] @ ?q # ?r # ?rest)) ''Q'' =
      Some ''\"SELECT 1\"''"
    using q by (rule conjunct1)
  moreover have "''Q'' \<notin> nonUniqueNames (buildTable newFinder ([(''n'', NotConst)] @ ?q # ?r # ?rest))"
    using q [THEN conjunct2] q_post by (simp only: simp_thms)
  moreover have "packageInfo (buildTable newFinder ([(''n'', NotConst), ?q] @ ?r # ?rest)) ''R'' =
      Some ''\"SELECT 2\"''"
    using r by (rule conjunct1)
  moreover have "''R'' \<in> nonUniqueNames (buildTable newFinder ([(''n'', NotConst), ?q] @ ?r # ?rest))"
    using r [THEN conjunct2] r_post by (simp only: simp_thms)
  ultimately show ?thesis
    by (simp only: append.simps simp_thms)
qed

text \<open>
  C4. A call whose query argument is a runtime variable should add nothing and let the run
  complete. \<open>processQuery\<close> looks an identifier up by its name alone, so a variable that
  bears the name of a constant defined somewhere in the package is resolved as that
  constant: here \<open>Defs\<close> holds the constant \<open>query\<close> and the variable \<open>query\<close> that
  the call passes, and the run appends the constant's value; with the constant defined
  twice, the run is aborted.
\<close>

theorem variable_named_like_constant_is_resolved:
  \<open>run [(''query'', Const ''"SELECT 1"''), (''query'', NotConst)]
     [Other ''File''
       [CallExpr (SelectorExpr (Ident ''db'') ''ExecContext'') [Ident ''ctx'', Ident ''query'']]] =
     Inr [''"SELECT 1"''] \<and>
   run [(''query'', Const ''"SELECT 1"''), (''query'', Const ''"SELECT 2"''), (''query'', NotConst)]
     [Other ''File''
       [CallExpr (SelectorExpr (Ident ''db'') ''ExecContext'') [Ident ''ctx'', Ident ''query'']]] =
     Inl (Fatal ''constant already defined, need unique name for query'')\<close>
  by (simp add: run_def Walk.simps methodImplements_def methodTable_def extractQuery_def
      queryFirst_def index_def buildTable_def newFinder_def lookup_def fatalMessage_def)

text \<open>
  What holds of the code: a query argument that is neither a literal nor an identifier
  whose name is in the table or in the non-unique set adds nothing, and the traversal goes
  on; the only \<open>log.Fatalf\<close> of \<open>processQuery\<close> is the one for a name in the
  non-unique set.
\<close>

lemma unknown_name_is_skipped:
  assumes "queryArgument sel args a"
    and "\<forall>v. a \<noteq> BasicLit v"
    and "\<forall>name. a = Ident name \<longrightarrow> packageInfo f name = None \<and> name \<notin> nonUniqueNames f"
  shows "processQuery f a = Inr [] \<and>
    Visit f (Some (CallExpr (SelectorExpr x sel) args)) = Inr (f, False) \<and>
    Walk f (CallExpr (SelectorExpr x sel) args) = Inr f \<and>
    (\<forall>rest. walkList f (CallExpr (SelectorExpr x sel) args # rest) = walkList f rest) \<and>
    (\<forall>q e. processQuery f q = Inl e \<longrightarrow>
       (\<exists>name. q = Ident name \<and> name \<in> nonUniqueNames f \<and>
          e = Fatal (''constant already defined, need unique name for '' @ name)))"
proof -
  let ?call = "CallExpr (SelectorExpr x sel) args"
  have pq: "processQuery f a = Inr []"
    using assms(2,3) by (cases a) (simp_all add: lookup_def)
  have visit: "Visit f (Some ?call) = Inr (f, False)"
    by (simp add: Visit_queryArgument [OF assms(1)] pq del: Visit.simps)
  have walk: "Walk f ?call = Inr f"
    by (simp add: Walk.simps visit del: Visit.simps)
  have rest: "walkList f (?call # rest) = walkList f rest" for rest
    by (simp add: walk)
  have only: "\<exists>name. q = Ident name \<and> name \<in> nonUniqueNames f \<and>
      e = Fatal (''constant already defined, need unique name for '' @ name)"
    if "processQuery f q = Inl e" for q e
    using that by (simp add: processQuery_fatal_only fatalMessage_def)
  show ?thesis
    using pq visit walk rest only by blast
qed

text \<open>
  C5, as amended. When the query argument of a recognised call is a literal (its source text
  is never empty), the value appended is the literal's source text as it stands, quotes
  included. For the literal \<open>"SELECT 1"\<close> this is the eight characters \<open>SELECT 1\<close>
  between double quotes, ten characters in all.
\<close>

theorem literal_text_is_appended:
  assumes "queryArgument sel args (BasicLit v)" and "v \<noteq> []"
  shows \<open>processQuery f (BasicLit v) = Inr v \<and>
    Visit f (Some (CallExpr (SelectorExpr x sel) args)) =
      Inr (f\<lparr>queries := queries f @ [v]\<rparr>, False) \<and>
    (v = ''"SELECT 1"'' \<longrightarrow>
       Visit f (Some (CallExpr (SelectorExpr x sel) args)) =
         Inr (f\<lparr>queries := queries f @ [CHR 0x22 # ''SELECT 1'' @ [CHR 0x22]]\<rparr>, False) \<and>
       length ''SELECT 1'' = 8)\<close>
proof -
  let ?call = "CallExpr (SelectorExpr x sel) args"
  have visit: "Visit f (Some ?call) = Inr (f\<lparr>queries := queries f @ [v]\<rparr>, False)"
    using assms(2) by (simp add: Visit_queryArgument [OF assms(1)] del: Visit.simps)
  then show ?thesis
    by simp
qed

theorem literal_text_is_appended_witness:
  \<open>queryArgument ''ExecContext'' [Ident ''ctx'', BasicLit ''"SELECT 1"''] (BasicLit ''"SELECT 1"'') \<and>
   ''"SELECT 1"'' \<noteq> [] \<and>
   Visit newFinder
     (Some (CallExpr (SelectorExpr (Ident ''db'') ''ExecContext'')
       [Ident ''ctx'', BasicLit ''"SELECT 1"''])) =
     Inr (newFinder\<lparr>queries := [''"SELECT 1"'']\<rparr>, False) \<and>
   length ''"SELECT 1"'' = 10\<close>
proof -
  have arg: \<open>queryArgument ''ExecContext'' [Ident ''ctx'', BasicLit ''"SELECT 1"'']
      (BasicLit ''"SELECT 1"'')\<close>
    by (simp add: queryArgument_def queryFirst_def)
  have ne: \<open>''"SELECT 1"'' \<noteq> []\<close>
    by simp
  note lit = literal_text_is_appended [OF arg ne, of newFinder "Ident ''db''"]
  have start: "queries newFinder = []"
    by (simp add: newFinder_def)
  show ?thesis
    using arg lit [THEN conjunct2, THEN conjunct1]
    by (simp only: start append_Nil simp_thms) simp
qed

text \<open>
  C5 as first stated counts five characters between the quotes: the value appended for the
  literal \<open>"SELECT 1"\<close> holds \<open>SELECT 1\<close> between the quotes, and that text does not
  have five characters.
\<close>

theorem literal_five_characters_counterexample:
  \<open>Visit newFinder
     (Some (CallExpr (SelectorExpr (Ident ''db'') ''ExecContext'')
       [Ident ''ctx'', BasicLit ''"SELECT 1"''])) =
     Inr (newFinder\<lparr>queries := [CHR 0x22 # ''SELECT 1'' @ [CHR 0x22]]\<rparr>, False) \<and>
   length ''SELECT 1'' \<noteq> 5\<close>
  by (simp add: methodImplements_def methodTable_def extractQuery_def queryFirst_def index_def
      newFinder_def)




text \<open>
  C7. A node is recognised exactly when it is a call whose callee is a selector with one of
  the nine method names. On a recognised node \<open>Visit\<close> never asks for the children, and the
  traversal of the node is the call of \<open>Visit\<close> on it and nothing more. On every other
  node \<open>Visit\<close> returns the finder untouched and asks for the children, and the traversal
  goes through them. After a node, the traversal goes on with the nodes that follow it.
\<close>

theorem recognised_call_is_not_descended:
  "(recognized n \<longleftrightarrow>
      (\<exists>x sel args. n = CallExpr (SelectorExpr x sel) args \<and>
         sel \<in> {''ExecContext'', ''QueryContext'', ''QueryRowContext'', ''NamedExecContext'',
           ''NamedQueryContext'', ''PrepareContext'', ''PrepareNamedContext'',
           ''GetContext'', ''SelectContext''})) \<and>
   (recognized n \<longrightarrow>
      (\<forall>f' d. Visit f (Some n) = Inr (f', d) \<longrightarrow> \<not> d) \<and>
      Walk f n = (case Visit f (Some n) of Inl e \<Rightarrow> Inl e | Inr (f', d) \<Rightarrow> Inr f') \<and>
      visited n = [n]) \<and>
   (\<not> recognized n \<longrightarrow>
      Visit f (Some n) = Inr (f, True) \<and>
      Walk f n = walkList f (children n) \<and>
      visited n = n # concat (map visited (children n))) \<and>
   walkList f (n # ns) = (case Walk f n of Inl e \<Rightarrow> Inl e | Inr f' \<Rightarrow> walkList f' ns) \<and>
   Walk f n = visitAll f (visited n)"
proof -
  have shape: "recognized n \<longleftrightarrow>
      (\<exists>x sel args. n = CallExpr (SelectorExpr x sel) args \<and>
         sel \<in> {''ExecContext'', ''QueryContext'', ''QueryRowContext'', ''NamedExecContext'',
           ''NamedQueryContext'', ''PrepareContext'', ''PrepareNamedContext'',
           ''GetContext'', ''SelectContext''})"
    by (simp only: recognized_shape recognized_names)
  have yes: "(\<forall>f' d. Visit f (Some n) = Inr (f', d) \<longrightarrow> \<not> d) \<and>
      Walk f n = (case Visit f (Some n) of Inl e \<Rightarrow> Inl e | Inr (f', d) \<Rightarrow> Inr f') \<and>
      visited n = [n]"
    if "recognized n"
    using that Visit_recognized [OF that] Walk_recognized [OF that]
    by (auto simp: visited.simps [of n])
  have no: "Visit f (Some n) = Inr (f, True) \<and>
      Walk f n = walkList f (children n) \<and>
      visited n = n # concat (map visited (children n))"
    if "\<not> recognized n"
    using that by (simp add: Visit_not_recognized Walk_not_recognized visited.simps [of n])
  have list: "walkList f (n # ns) = (case Walk f n of Inl e \<Rightarrow> Inl e | Inr f' \<Rightarrow> walkList f' ns)"
    by simp
  show ?thesis
    using shape yes no list Walk_visitAll [of f n] by blast
qed


theorem recognised_call_is_not_descended_witness:
  \<open>recognized
     (CallExpr (SelectorExpr (Ident ''db'') ''ExecContext'')
       [Ident ''ctx'',
        CallExpr (SelectorExpr (Ident ''tx'') ''QueryRowContext'') [Ident ''ctx'', Ident ''Q'']]) \<and>
   visited
     (CallExpr (SelectorExpr (Ident ''db'') ''ExecContext'')
       [Ident ''ctx'',
        CallExpr (SelectorExpr (Ident ''tx'') ''QueryRowContext'') [Ident ''ctx'', Ident ''Q'']]) =
     [CallExpr (SelectorExpr (Ident ''db'') ''ExecContext'')
       [Ident ''ctx'',
        CallExpr (SelectorExpr (Ident ''tx'') ''QueryRowContext'') [Ident ''ctx'', Ident ''Q'']]] \<and>
   Walk (buildTable newFinder [(''Q'', Const ''"SELECT 1"''), (''Q'', Const ''"SELECT 2"'')])
     (CallExpr (SelectorExpr (Ident ''db'') ''ExecContext'')
       [Ident ''ctx'',
        CallExpr (SelectorExpr (Ident ''tx'') ''QueryRowContext'') [Ident ''ctx'', Ident ''Q'']]) =
     Inr (buildTable newFinder [(''Q'', Const ''"SELECT 1"''), (''Q'', Const ''"SELECT 2"'')]) \<and>
   Walk (buildTable newFinder [(''Q'', Const ''"SELECT 1"''), (''Q'', Const ''"SELECT 2"'')])
     (CallExpr (SelectorExpr (Ident ''tx'') ''QueryRowContext'') [Ident ''ctx'', Ident ''Q'']) =
     Inl (Fatal ''constant already defined, need unique name for Q'') \<and>
   \<not> recognized
     (CallExpr (Ident ''log'')
       [CallExpr (SelectorExpr (Ident ''db'') ''GetContext'')
         [Ident ''ctx'', Ident ''dest'', BasicLit ''"SELECT 1"'']]) \<and>
   Walk newFinder
     (CallExpr (Ident ''log'')
       [CallExpr (SelectorExpr (Ident ''db'') ''GetContext'')
         [Ident ''ctx'', Ident ''dest'', BasicLit ''"SELECT 1"'']]) =
     Inr (newFinder\<lparr>queries := [''"SELECT 1"'']\<rparr>)\<close>
proof -
  let ?f = \<open>buildTable newFinder [(''Q'', Const ''"SELECT 1"''), (''Q'', Const ''"SELECT 2"'')]\<close>
  let ?inner = "CallExpr (SelectorExpr (Ident ''tx'') ''QueryRowContext'') [Ident ''ctx'', Ident ''Q'']"
  let ?outer = "CallExpr (SelectorExpr (Ident ''db'') ''ExecContext'') [Ident ''ctx'', ?inner]"
  let ?get = \<open>CallExpr (SelectorExpr (Ident ''db'') ''GetContext'')
         [Ident ''ctx'', Ident ''dest'', BasicLit ''"SELECT 1"'']\<close>
  let ?plain = "CallExpr (Ident ''log'') [?get]"
  have rec: "recognized ?outer"
    by (simp add: methodImplements_def methodTable_def)
  have not_rec: "\<not> recognized ?plain"
    by simp
  note outer = recognised_call_is_not_descended [of ?outer ?f, THEN conjunct2, THEN conjunct1,
      THEN mp, OF rec]
  note plain = recognised_call_is_not_descended [of ?plain newFinder, THEN conjunct2,
      THEN conjunct2, THEN conjunct1, THEN mp, OF not_rec]
  have visit: "Visit ?f (Some ?outer) = Inr (?f, False)"
    by (simp add: methodImplements_def methodTable_def extractQuery_def queryFirst_def index_def)
  have walk_outer: "Walk ?f ?outer = Inr ?f"
    using outer [THEN conjunct2, THEN conjunct1] by (simp only: visit sum.case prod.case)
  have walk_inner: "Walk ?f ?inner = Inl (Fatal ''constant already defined, need unique name for Q'')"
    by (simp add: Walk.simps methodImplements_def methodTable_def extractQuery_def queryFirst_def
        index_def buildTable_def newFinder_def fatalMessage_def)
  have "walkList newFinder (children ?plain) = Inr (newFinder\<lparr>queries := [''\"SELECT 1\"'']\<rparr>)"
    by (simp add: Walk.simps methodImplements_def methodTable_def extractQuery_def queryFirst_def
        destFirst_def index_def newFinder_def)
  then have walk_plain: "Walk newFinder ?plain = Inr (newFinder\<lparr>queries := [''\"SELECT 1\"'']\<rparr>)"
    using plain [THEN conjunct2, THEN conjunct1] by (simp only:)
  show ?thesis
    using rec not_rec outer [THEN conjunct2, THEN conjunct2] walk_outer walk_inner walk_plain
    by (simp only: simp_thms)
qed

text \<open>
  C8. \<open>Visit\<close> leaves the constant table and the non-unique name set as they were, and the
  query list either as it was or longer by one element at its end. A traversal of a node or
  of a list of nodes leaves both tables as they were and only adds to the end of the query
  list. (\<open>processQuery\<close> assigns nothing in the source; it is a function of the finder that
  returns its result only, called inside \<open>Visit\<close>.)
\<close>

theorem tables_read_only_queries_append_only:
  "(Visit f n = Inr (f', d) \<longrightarrow>
      packageInfo f' = packageInfo f \<and> nonUniqueNames f' = nonUniqueNames f \<and>
      (queries f' = queries f \<or> (\<exists>q. queries f' = queries f @ [q]))) \<and>
   (Walk f m = Inr g \<longrightarrow>
      packageInfo g = packageInfo f \<and> nonUniqueNames g = nonUniqueNames f \<and>
      (\<exists>qs. queries g = queries f @ qs)) \<and>
   (walkList f ms = Inr h \<longrightarrow>
      packageInfo h = packageInfo f \<and> nonUniqueNames h = nonUniqueNames f \<and>
      (\<exists>qs. queries h = queries f @ qs))"
proof -
  have visit: "packageInfo f' = packageInfo f \<and> nonUniqueNames f' = nonUniqueNames f \<and>
      (queries f' = queries f \<or> (\<exists>q. queries f' = queries f @ [q]))"
    if "Visit f n = Inr (f', d)"
    using Visit_frame [OF that] by blast
  have walk: "packageInfo g = packageInfo f \<and> nonUniqueNames g = nonUniqueNames f \<and>
      (\<exists>qs. queries g = queries f @ qs)"
    if "Walk f m = Inr g"
  proof -
    have "sameTables g f"
      using that by (rule Walk_sameTables)
    moreover have "shifted f (Walk (f\<lparr>queries := []\<rparr>) m) = Inr g"
      using that Walk_shift [of f m] by (simp only:)
    then have "\<exists>qs. queries g = queries f @ qs"
      by (cases "Walk (f\<lparr>queries := []\<rparr>) m") (auto simp: shifted_def)
    ultimately show ?thesis
      by (simp add: sameTables_def)
  qed
  have list: "packageInfo h = packageInfo f \<and> nonUniqueNames h = nonUniqueNames f \<and>
      (\<exists>qs. queries h = queries f @ qs)"
    if "walkList f ms = Inr h"
  proof -
    have "sameTables h f"
      using that by (rule walkList_sameTables)
    moreover have "shifted f (walkList (f\<lparr>queries := []\<rparr>) ms) = Inr h"
      using that walkList_shift [of f ms] by (simp only:)
    then have "\<exists>qs. queries h = queries f @ qs"
      by (cases "walkList (f\<lparr>queries := []\<rparr>) ms") (auto simp: shifted_def)
    ultimately show ?thesis
      by (simp add: sameTables_def)
  qed
  show ?thesis
    using visit walk list by blast
qed

theorem tables_read_only_queries_append_only_witness:
  \<open>Visit (buildTable newFinder [(''Q'', Const ''"SELECT 1"'')])
     (Some (CallExpr (SelectorExpr (Ident ''db'') ''ExecContext'') [Ident ''ctx'', Ident ''Q''])) =
     Inr ((buildTable newFinder [(''Q'', Const ''"SELECT 1"'')])\<lparr>queries := [''"SELECT 1"'']\<rparr>,
       False) \<and>
   packageInfo ((buildTable newFinder [(''Q'', Const ''"SELECT 1"'')])\<lparr>queries := [''"SELECT 1"'']\<rparr>) =
     packageInfo (buildTable newFinder [(''Q'', Const ''"SELECT 1"'')]) \<and>
   nonUniqueNames
     ((buildTable newFinder [(''Q'', Const ''"SELECT 1"'')])\<lparr>queries := [''"SELECT 1"'']\<rparr>) =
     nonUniqueNames (buildTable newFinder [(''Q'', Const ''"SELECT 1"'')]) \<and>
   (queries ((buildTable newFinder [(''Q'', Const ''"SELECT 1"'')])\<lparr>queries := [''"SELECT 1"'']\<rparr>) =
      queries (buildTable newFinder [(''Q'', Const ''"SELECT 1"'')]) \<or>
    (\<exists>q. queries
         ((buildTable newFinder [(''Q'', Const ''"SELECT 1"'')])\<lparr>queries := [''"SELECT 1"'']\<rparr>) =
       queries (buildTable newFinder [(''Q'', Const ''"SELECT 1"'')]) @ [q]))\<close>
proof -
  let ?f = \<open>buildTable newFinder [(''Q'', Const ''"SELECT 1"'')]\<close>
  let ?g = \<open>?f\<lparr>queries := [''"SELECT 1"'']\<rparr>\<close>
  let ?call = "CallExpr (SelectorExpr (Ident ''db'') ''ExecContext'') [Ident ''ctx'', Ident ''Q'']"
  have visit: "Visit ?f (Some ?call) = Inr (?g, False)"
    by (simp add: methodImplements_def methodTable_def extractQuery_def queryFirst_def index_def
        buildTable_def newFinder_def lookup_def)
  show ?thesis
    using visit
      tables_read_only_queries_append_only [of ?f "Some ?call" ?g False, THEN conjunct1,
        THEN mp, OF visit]
    by (simp only: simp_thms)
qed

text \<open>
  C9. Two traversals of the same files in the same order, by finders with the same constant
  table and the same non-unique name set, stop with the same error or append the same
  values in the same order; started with the same query list they return the same finder.
  The calls of \<open>Visit\<close> are those on the nodes of the files, file after file.
\<close>

theorem traversal_is_deterministic:
  assumes "packageInfo f1 = packageInfo f2" and "nonUniqueNames f1 = nonUniqueNames f2"
  shows "map_sum id (\<lambda>g. drop (length (queries f1)) (queries g)) (walkList f1 files) =
      map_sum id (\<lambda>g. drop (length (queries f2)) (queries g)) (walkList f2 files) \<and>
    (queries f1 = queries f2 \<longrightarrow> walkList f1 files = walkList f2 files) \<and>
    walkList f1 files = visitAll f1 (concat (map visited files))"
proof -
  have reset: "f1\<lparr>queries := []\<rparr> = f2\<lparr>queries := []\<rparr>"
    using assms by simp
  have appended: "map_sum id (\<lambda>g. drop (length (queries f)) (queries g)) (walkList f files) =
      map_sum id queries (walkList (f\<lparr>queries := []\<rparr>) files)" for f
  proof (cases "walkList (f\<lparr>queries := []\<rparr>) files")
    case (Inl e)
    then have "walkList f files = Inl e"
      using walkList_shift [of f files] by (simp only: shifted_Inl)
    then show ?thesis
      using Inl by simp
  next
    case (Inr g)
    then have "walkList f files = Inr (f\<lparr>queries := queries f @ queries g\<rparr>)"
      using walkList_shift [of f files] by (simp only: shifted_Inr)
    then show ?thesis
      using Inr by simp
  qed
  have "map_sum id (\<lambda>g. drop (length (queries f1)) (queries g)) (walkList f1 files) =
      map_sum id (\<lambda>g. drop (length (queries f2)) (queries g)) (walkList f2 files)"
    by (simp only: appended reset)
  moreover have "walkList f1 files = walkList f2 files" if "queries f1 = queries f2"
  proof -
    have "f1 = f2"
      using assms that by simp
    then show ?thesis
      by simp
  qed
  ultimately show ?thesis
    using walkList_visitAll [of f1 files] by blast
qed

theorem traversal_is_deterministic_witness:
  \<open>packageInfo (newFinder\<lparr>queries := [''"OLD"'']\<rparr>) = packageInfo newFinder \<and>
   nonUniqueNames (newFinder\<lparr>queries := [''"OLD"'']\<rparr>) = nonUniqueNames newFinder \<and>
   map_sum id (\<lambda>g. drop (length (queries newFinder)) (queries g))
     (walkList newFinder
       [Other ''File''
         [CallExpr (SelectorExpr (Ident ''db'') ''ExecContext'') [Ident ''ctx'', BasicLit ''"A"''],
          CallExpr (SelectorExpr (Ident ''db'') ''GetContext'')
            [Ident ''ctx'', Ident ''dest'', BasicLit ''"B"'']]]) =
     Inr [''"A"'', ''"B"''] \<and>
   map_sum id (\<lambda>g. drop (length (queries (newFinder\<lparr>queries := [''"OLD"'']\<rparr>))) (queries g))
     (walkList (newFinder\<lparr>queries := [''"OLD"'']\<rparr>)
       [Other ''File''
         [CallExpr (SelectorExpr (Ident ''db'') ''ExecContext'') [Ident ''ctx'', BasicLit ''"A"''],
          CallExpr (SelectorExpr (Ident ''db'') ''GetContext'')
            [Ident ''ctx'', Ident ''dest'', BasicLit ''"B"'']]]) =
     Inr [''"A"'', ''"B"'']\<close>
proof -
  let ?old = \<open>newFinder\<lparr>queries := [''"OLD"'']\<rparr>\<close>
  let ?files = \<open>[Other ''File''
         [CallExpr (SelectorExpr (Ident ''db'') ''ExecContext'') [Ident ''ctx'', BasicLit ''"A"''],
          CallExpr (SelectorExpr (Ident ''db'') ''GetContext'')
            [Ident ''ctx'', Ident ''dest'', BasicLit ''"B"'']]]\<close>
  have info: "packageInfo ?old = packageInfo newFinder"
    by simp
  have names: "nonUniqueNames ?old = nonUniqueNames newFinder"
    by simp
  have fresh: \<open>map_sum id (\<lambda>g. drop (length (queries newFinder)) (queries g))
     (walkList newFinder ?files) = Inr [''"A"'', ''"B"'']\<close>
    by (simp add: Walk.simps methodImplements_def methodTable_def extractQuery_def queryFirst_def
        destFirst_def index_def newFinder_def)
  have \<open>map_sum id (\<lambda>g. drop (length (queries ?old)) (queries g)) (walkList ?old ?files) =
     map_sum id (\<lambda>g. drop (length (queries newFinder)) (queries g)) (walkList newFinder ?files)\<close>
    by (rule traversal_is_deterministic [OF info names, THEN conjunct1])
  then show ?thesis
    using info names fresh by (simp only: simp_thms)
qed

text \<open>
  C10. \<open>Visit\<close> indexes the argument list of a recognised call without testing its length.
  For \<open>GetContext\<close> and \<open>SelectContext\<close> the index expression panics exactly when the
  call has fewer than 3 arguments, for the other methods exactly when it has fewer than 2;
  with that many arguments the lookup succeeds, the argument goes to \<open>processQuery\<close>, and
  \<open>Visit\<close> does not end in an index panic.
\<close>

theorem argument_index_bounds:
  assumes "methodImplements sel \<noteq> []"
  shows "(sel \<in> {''GetContext'', ''SelectContext''} \<longrightarrow>
       (length args < 3 \<longrightarrow>
          Visit f (Some (CallExpr (SelectorExpr x sel) args)) =
            Inl (IndexOutOfRange 2 (length args))) \<and>
       (3 \<le> length args \<longrightarrow>
          index args 2 = Inr (args ! 2) \<and>
          extractQuery f sel args = processQuery f (args ! 2) \<and>
          (\<forall>i k. Visit f (Some (CallExpr (SelectorExpr x sel) args)) \<noteq>
             Inl (IndexOutOfRange i k)))) \<and>
    (sel \<notin> {''GetContext'', ''SelectContext''} \<longrightarrow>
       (length args < 2 \<longrightarrow>
          Visit f (Some (CallExpr (SelectorExpr x sel) args)) =
            Inl (IndexOutOfRange 1 (length args))) \<and>
       (2 \<le> length args \<longrightarrow>
          index args 1 = Inr (args ! 1) \<and>
          extractQuery f sel args = processQuery f (args ! 1) \<and>
          (\<forall>i k. Visit f (Some (CallExpr (SelectorExpr x sel) args)) \<noteq>
             Inl (IndexOutOfRange i k))))"
proof -
  let ?call = "CallExpr (SelectorExpr x sel) args"
  have no_panic: "processQuery f a \<noteq> Inl (IndexOutOfRange i k)" for a i k
    by (cases a) simp_all
  have visit: "Visit f (Some ?call) =
      (case extractQuery f sel args of
         Inl e \<Rightarrow> Inl e
       | Inr query \<Rightarrow>
           Inr (if query \<noteq> [] then f\<lparr>queries := queries f @ [query]\<rparr> else f, False))"
    using assms by simp
  have within: "Visit f (Some ?call) \<noteq> Inl (IndexOutOfRange i k)"
    if "extractQuery f sel args = processQuery f a" for a i k
    using no_panic [of a i k] by (simp only: visit that split: sum.splits) auto
  show ?thesis
  proof (cases "sel \<in> set destFirst")
    case True
    then have dest: "sel \<in> {''GetContext'', ''SelectContext''}" "sel \<notin> set queryFirst"
      using queryFirst_not_destFirst [of sel] by (auto simp: destFirst_def)
    have short: "Visit f (Some ?call) = Inl (IndexOutOfRange 2 (length args))"
      if "length args < 3"
      using that True dest(2) by (simp only: visit) (simp add: extractQuery_def index_def)
    have long: "index args 2 = Inr (args ! 2) \<and>
        extractQuery f sel args = processQuery f (args ! 2)"
      if "3 \<le> length args"
      using that True dest(2) by (simp add: extractQuery_def index_def)
    show ?thesis
      using dest(1) short long within by blast
  next
    case False
    then have first: "sel \<notin> {''GetContext'', ''SelectContext''}" "sel \<in> set queryFirst"
      using assms by (auto simp: recognized_iff destFirst_def)
    have short: "Visit f (Some ?call) = Inl (IndexOutOfRange 1 (length args))"
      if "length args < 2"
      using that first(2) by (simp only: visit) (simp add: extractQuery_def index_def)
    have long: "index args 1 = Inr (args ! 1) \<and>
        extractQuery f sel args = processQuery f (args ! 1)"
      if "2 \<le> length args"
      using that first(2) by (simp add: extractQuery_def index_def)
    show ?thesis
      using first(1) short long within by blast
  qed
qed

theorem argument_index_bounds_witness:
  \<open>methodImplements ''GetContext'' \<noteq> [] \<and>
   Visit newFinder
     (Some (CallExpr (SelectorExpr (Ident ''db'') ''GetContext'')
       [Ident ''ctx'', BasicLit ''"SELECT 1"''])) =
     Inl (IndexOutOfRange 2 2) \<and>
   methodImplements ''ExecContext'' \<noteq> [] \<and>
   Visit newFinder
     (Some (CallExpr (SelectorExpr (Ident ''db'') ''ExecContext'') [Ident ''ctx''])) =
     Inl (IndexOutOfRange 1 1) \<and>
   extractQuery newFinder ''ExecContext'' [Ident ''ctx'', BasicLit ''"SELECT 1"''] =
     Inr ''"SELECT 1"''\<close>
proof -
  have get: "methodImplements ''GetContext'' \<noteq> []"
    by (simp add: methodImplements_def methodTable_def)
  have exec: "methodImplements ''ExecContext'' \<noteq> []"
    by (simp add: methodImplements_def methodTable_def)
  have is_get: "''GetContext'' \<in> {''GetContext'', ''SelectContext''}"
    by simp
  have not_get: "''ExecContext'' \<notin> {''GetContext'', ''SelectContext''}"
    by simp
  have short_get: \<open>length [Ident ''ctx'', BasicLit ''"SELECT 1"''] < 3\<close>
    by simp
  have short_exec: "length [Ident ''ctx''] < 2"
    by simp
  have long_exec: \<open>2 \<le> length [Ident ''ctx'', BasicLit ''"SELECT 1"'']\<close>
    by simp
  have one: \<open>Visit newFinder
     (Some (CallExpr (SelectorExpr (Ident ''db'') ''GetContext'')
       [Ident ''ctx'', BasicLit ''"SELECT 1"''])) =
     Inl (IndexOutOfRange 2 (length [Ident ''ctx'', BasicLit ''"SELECT 1"'']))\<close>
    by (rule argument_index_bounds [OF get, THEN conjunct1, THEN mp, OF is_get,
          THEN conjunct1, THEN mp, OF short_get])
  have two: "Visit newFinder
     (Some (CallExpr (SelectorExpr (Ident ''db'') ''ExecContext'') [Ident ''ctx''])) =
     Inl (IndexOutOfRange 1 (length [Ident ''ctx'']))"
    by (rule argument_index_bounds [OF exec, THEN conjunct2, THEN mp, OF not_get,
          THEN conjunct1, THEN mp, OF short_exec])
  have three: \<open>extractQuery newFinder ''ExecContext'' [Ident ''ctx'', BasicLit ''"SELECT 1"''] =
     processQuery newFinder ([Ident ''ctx'', BasicLit ''"SELECT 1"''] ! 1)\<close>
    by (rule argument_index_bounds [OF exec, THEN conjunct2, THEN mp, OF not_get,
          THEN conjunct2, THEN mp, OF long_exec, THEN conjunct2, THEN conjunct1])
  show ?thesis
    using get exec one two three by simp
qed

end
